theory Spec2Isabelle
  imports Complex_Main
begin

section \<open>Flat wCDM cosmology (wcosmo/wcosmo.py)\<close>

text \<open>
  A failure is a value: a call that Python rejects while binding arguments is
  \<open>TypeError\<close>, numpy's refusal of malformed sample arrays is \<open>ValueError\<close>, and an
  operation with no finite result (a division by zero, a logarithm or a fractional power
  outside its real domain: the backend raises, or yields inf, nan or a complex number)
  is \<open>NotFinite\<close>. An error propagates through every later operation, in the source's
  order of evaluation.
\<close>

datatype error = TypeError string | ValueError | NotFinite

definition rbind :: "error + 'a \<Rightarrow> ('a \<Rightarrow> error + 'b) \<Rightarrow> error + 'b" where
  "rbind m f = (case m of Inl e \<Rightarrow> Inl e | Inr x \<Rightarrow> f x)"

subsection \<open>Binary64 arithmetic\<close>

text \<open>
  The formulas of the module compute in binary64. A float is the real number it
  denotes, and every arithmetic operation returns the exact result rounded to 53
  significant bits, to nearest, ties to even: \<open>rnd\<close>. The exponent range is left
  unbounded, so overflow and underflow are not modelled. \<open>x ** y\<close> is taken as the
  correctly rounded power; at base 1 and base 0, where the properties below use it,
  its value is exact in any case.
\<close>

definition round_half_even :: "real \<Rightarrow> int" where
  "round_half_even x =
     (let f = \<lfloor>x\<rfloor>; d = x - of_int f in
      if d < 1 / 2 then f else if 1 / 2 < d then f + 1 else if even f then f else f + 1)"

definition rnd :: "real \<Rightarrow> real" where
  "rnd x =
     (if x = 0 then 0
      else
        let e = \<lfloor>log 2 \<bar>x\<bar>\<rfloor> - 52 in
        sgn x * of_int (round_half_even (\<bar>x\<bar> / 2 powr of_int e)) * 2 powr of_int e)"

text \<open>
  An exact result whose magnitude lies in this range is rounded by binary64 exactly as
  \<open>rnd\<close> rounds it: it is neither subnormal nor close enough to the largest float to
  overflow.
\<close>

definition normal64 :: "real \<Rightarrow> bool" where
  "normal64 x = (1 / 2 ^ 1022 \<le> \<bar>x\<bar> \<and> \<bar>x\<bar> \<le> 2 ^ 1023)"

text \<open>\<open>a / b\<close> on floats.\<close>

definition div64 :: "real \<Rightarrow> real \<Rightarrow> error + real" where
  "div64 a b = (if b = 0 then Inl NotFinite else Inr (rnd (a / b)))"

text \<open>\<open>x ** y\<close> with a float exponent.\<close>

definition fpow :: "real \<Rightarrow> real \<Rightarrow> error + real" where
  "fpow x y =
     (if 0 < x then Inr (rnd (x powr y))
      else if x = 0 then (if y < 0 then Inl NotFinite else if y = 0 then Inr 1 else Inr 0)
      else if y \<in> \<int> then Inr (rnd (x powi \<lfloor>y\<rfloor>))
      else Inl NotFinite)"

text \<open>\<open>xp.pi\<close>, the float next to \<open>pi\<close>.\<close>

definition pi64 :: real where
  "pi64 = 884279719003555 / 281474976710656"

subsection \<open>Exact arithmetic for the array routines\<close>

text \<open>
  The grid and the interpolation of numpy, and the frame conversion that divides by the
  redshift they return, are taken over the reals: rounding inside them is not modelled.
\<close>

definition fdiv :: "real \<Rightarrow> real \<Rightarrow> error + real" where
  "fdiv a b = (if b = 0 then Inl NotFinite else Inr (a / b))"

text \<open>\<open>xp.log10\<close>.\<close>

definition log10 :: "real \<Rightarrow> error + real" where
  "log10 x = (if 0 < x then Inr (log 10 x) else Inl NotFinite)"

subsection \<open>Imported names\<close>

text \<open>
  The module imports \<open>analytic_integral\<close> from \<open>.taylor\<close> and two constants from
  \<open>.utils\<close>; none of them is defined in this file, so they are parameters of the model.
  \<open>analytic_integral z Om0 w0 zpower\<close> may fail. The decorators \<open>autodoc\<close>,
  \<open>method_autodoc\<close> and \<open>maybe_jit\<close> only fill docstrings and select a compiled
  path; they leave the decorated function's signature and result as written.
\<close>

record imported =
  SPEED_OF_LIGHT_KM_PER_S :: real
  GYR_KM_PER_S_MPC :: real
  analytic_integral :: "real \<Rightarrow> real \<Rightarrow> real \<Rightarrow> real \<Rightarrow> error + real"

subsection \<open>Keyword arguments\<close>

text \<open>
  A call \<open>f(k1=v1, ..., kn=vn)\<close> binds each keyword to a parameter of \<open>f\<close>; a keyword
  that names no parameter, or a parameter without default that receives no value, raises
  TypeError before the body runs.
\<close>

type_synonym kwargs = "(string \<times> real) list"

definition unexpected_keyword :: "string list \<Rightarrow> kwargs \<Rightarrow> string option" where
  "unexpected_keyword params kw =
     (case filter (\<lambda>k. k \<notin> set params) (map fst kw) of [] \<Rightarrow> None | k # _ \<Rightarrow> Some k)"

definition required :: "kwargs \<Rightarrow> string \<Rightarrow> error + real" where
  "required kw k = (case map_of kw k of None \<Rightarrow> Inl (TypeError k) | Some v \<Rightarrow> Inr v)"

definition optional :: "kwargs \<Rightarrow> string \<Rightarrow> real \<Rightarrow> real" where
  "optional kw k d = (case map_of kw k of None \<Rightarrow> d | Some v \<Rightarrow> v)"

subsection \<open>E(z) and the Hubble scales\<close>

definition efunc :: "real \<Rightarrow> real \<Rightarrow> real \<Rightarrow> error + real" where
  "efunc z Om0 w0 =
     (let zp1 = rnd (1 + z) in
      rbind (fpow zp1 (rnd (3 * rnd (1 + w0)))) (\<lambda>p.
        fpow (rnd (rnd (Om0 * rnd (zp1 ^ 3)) + rnd (rnd (1 - Om0) * p))) 0.5))"

definition inv_efunc :: "real \<Rightarrow> real \<Rightarrow> real \<Rightarrow> error + real" where
  "inv_efunc z Om0 w0 = rbind (efunc z Om0 w0) (\<lambda>e. div64 1 e)"

text \<open>The call \<open>inv_efunc(**kw)\<close>: parameters \<open>z\<close>, \<open>Om0\<close> and \<open>w0=-1\<close>.\<close>

definition inv_efunc_kw :: "kwargs \<Rightarrow> error + real" where
  "inv_efunc_kw kw =
     (case unexpected_keyword [''z'', ''Om0'', ''w0''] kw of
        Some k \<Rightarrow> Inl (TypeError k)
      | None \<Rightarrow>
          rbind (required kw ''z'') (\<lambda>z.
          rbind (required kw ''Om0'') (\<lambda>Om0.
            inv_efunc z Om0 (optional kw ''w0'' (- 1)))))"

definition hubble_distance :: "imported \<Rightarrow> real \<Rightarrow> error + real" where
  "hubble_distance im H0 = div64 (SPEED_OF_LIGHT_KM_PER_S im) H0"

text \<open>The call \<open>hubble_distance(**kw)\<close>: the one parameter \<open>H0\<close>.\<close>

definition hubble_distance_kw :: "imported \<Rightarrow> kwargs \<Rightarrow> error + real" where
  "hubble_distance_kw im kw =
     (case unexpected_keyword [''H0''] kw of
        Some k \<Rightarrow> Inl (TypeError k)
      | None \<Rightarrow> rbind (required kw ''H0'') (\<lambda>H0. hubble_distance im H0))"

definition hubble_time :: "imported \<Rightarrow> real \<Rightarrow> error + real" where
  "hubble_time im H0 = div64 (GYR_KM_PER_S_MPC im) H0"

definition hubble_parameter :: "imported \<Rightarrow> real \<Rightarrow> real \<Rightarrow> real \<Rightarrow> real \<Rightarrow> error + real" where
  "hubble_parameter im z H0 Om0 w0 =
     rbind (hubble_distance_kw im [(''H0'', H0)]) (\<lambda>d.
     rbind (inv_efunc_kw [(''z'', z), (''H0'', H0), (''Om0'', Om0), (''w0'', w0)]) (\<lambda>i.
       Inr (rnd (d * i))))"

subsection \<open>Distances, times and volumes\<close>

definition comoving_distance :: "imported \<Rightarrow> real \<Rightarrow> real \<Rightarrow> real \<Rightarrow> real \<Rightarrow> error + real" where
  "comoving_distance im z H0 Om0 w0 =
     rbind (analytic_integral im z Om0 w0 0) (\<lambda>a.
     rbind (hubble_distance im H0) (\<lambda>d. Inr (rnd (a * d))))"

definition lookback_time :: "imported \<Rightarrow> real \<Rightarrow> real \<Rightarrow> real \<Rightarrow> real \<Rightarrow> error + real" where
  "lookback_time im z H0 Om0 w0 =
     rbind (analytic_integral im z Om0 w0 (- 1)) (\<lambda>a.
     rbind (hubble_time im H0) (\<lambda>t. Inr (rnd (a * t))))"

definition luminosity_distance :: "imported \<Rightarrow> real \<Rightarrow> real \<Rightarrow> real \<Rightarrow> real \<Rightarrow> error + real" where
  "luminosity_distance im z H0 Om0 w0 =
     rbind (comoving_distance im z H0 Om0 w0) (\<lambda>dC. Inr (rnd (rnd (1 + z) * dC)))"

definition comoving_volume :: "imported \<Rightarrow> real \<Rightarrow> real \<Rightarrow> real \<Rightarrow> real \<Rightarrow> error + real" where
  "comoving_volume im z H0 Om0 w0 =
     rbind (comoving_distance im z H0 Om0 w0) (\<lambda>dC.
       Inr (rnd (rnd (rnd (4 / 3) * pi64) * rnd (dC ^ 3))))"

subsection \<open>The array backend: grids and interpolation\<close>

text \<open>
  \<open>xp\<close> is numpy, which is not part of the repository. An array is a list, and a
  function applied to an array is applied to each element, failing when one element
  fails. \<open>linspace\<close> and \<open>logspace\<close> follow numpy's definitions (with the end point
  included, and the last sample set to \<open>stop\<close>); \<open>interp\<close> follows numpy's compiled
  interpolation routine for a scalar \<open>x\<close>: the index search
  \<open>binary_search_with_guess\<close> (started with guess 0) and then the choice between the
  \<open>left\<close> value, the \<open>right\<close> value, a sample, and the line through two neighbouring
  samples. numpy's extra branches for nan operands have no counterpart over the reals.
\<close>

fun map_res :: "('a \<Rightarrow> error + 'b) \<Rightarrow> 'a list \<Rightarrow> error + 'b list" where
  "map_res f [] = Inr []"
| "map_res f (x # xs) =
     rbind (f x) (\<lambda>y. rbind (map_res f xs) (\<lambda>ys. Inr (y # ys)))"

definition linspace :: "real \<Rightarrow> real \<Rightarrow> nat \<Rightarrow> real list" where
  "linspace start stop num =
     (if num = 0 then []
      else if num = 1 then [start]
      else map (\<lambda>i. real i * ((stop - start) / real (num - 1)) + start) [0..<num - 1] @ [stop])"

definition logspace :: "real \<Rightarrow> real \<Rightarrow> nat \<Rightarrow> real list" where
  "logspace start stop num = map (\<lambda>y. 10 powr y) (linspace start stop num)"

function linear_search :: "real \<Rightarrow> real list \<Rightarrow> nat \<Rightarrow> nat" where
  "linear_search key arr i =
     (if i < length arr \<and> key \<ge> arr ! i then linear_search key arr (i + 1) else i)"
  by pat_completeness auto
termination
  by (relation "measure (\<lambda>(key, arr, i). length arr - i)") auto

declare linear_search.simps [simp del]

function bisect :: "real \<Rightarrow> real list \<Rightarrow> nat \<Rightarrow> nat \<Rightarrow> nat" where
  "bisect key arr imin imax =
     (if imin < imax then
        (let imid = imin + (imax - imin) div 2 in
         if key \<ge> arr ! imid then bisect key arr (imid + 1) imax
         else bisect key arr imin imid)
      else imin)"
  by pat_completeness auto
termination
  by (relation "measure (\<lambda>(key, arr, imin, imax). imax - imin)") auto

declare bisect.simps [simp del]

definition LIKELY_IN_CACHE_SIZE :: nat where
  "LIKELY_IN_CACHE_SIZE = 8"

definition binary_search_with_guess :: "real \<Rightarrow> real list \<Rightarrow> nat \<Rightarrow> int" where
  "binary_search_with_guess key arr guess0 =
     (let len = length arr in
      if key > arr ! (len - 1) then int len
      else if key < arr ! 0 then - 1
      else if len \<le> 4 then int (linear_search key arr 1) - 1
      else
        let guess = max 1 (min guess0 (len - 3)) in
        if key < arr ! guess then
          (if key < arr ! (guess - 1) then
             int (bisect key arr
                   (if guess > LIKELY_IN_CACHE_SIZE \<and> key \<ge> arr ! (guess - LIKELY_IN_CACHE_SIZE)
                    then guess - LIKELY_IN_CACHE_SIZE else 0)
                   (guess - 1)) - 1
           else int guess - 1)
        else if key < arr ! (guess + 1) then int guess
        else if key < arr ! (guess + 2) then int guess + 1
        else
          int (bisect key arr (guess + 2)
                (if guess + LIKELY_IN_CACHE_SIZE + 1 < len \<and> key < arr ! (guess + LIKELY_IN_CACHE_SIZE)
                 then guess + LIKELY_IN_CACHE_SIZE else len)) - 1)"

definition interp :: "real \<Rightarrow> real list \<Rightarrow> real list \<Rightarrow> real \<Rightarrow> real \<Rightarrow> error + real" where
  "interp x xp fp left right =
     (if xp = [] then Inl ValueError
      else if length fp \<noteq> length xp then Inl ValueError
      else if length xp = 1 then
        Inr (if x < xp ! 0 then left else if x > xp ! 0 then right else fp ! 0)
      else
        let j = binary_search_with_guess x xp 0 in
        if j = - 1 then Inr left
        else if j = int (length xp) then Inr right
        else if j = int (length xp) - 1 then Inr (fp ! nat j)
        else if xp ! nat j = x then Inr (fp ! nat j)
        else
          rbind (fdiv (fp ! (nat j + 1) - fp ! nat j) (xp ! (nat j + 1) - xp ! nat j)) (\<lambda>slope.
            Inr (slope * (x - xp ! nat j) + fp ! nat j)))"

subsection \<open>Redshift inversion and frame conversion\<close>

text \<open>
  \<open>func\<close> stands for the call \<open>func(z, **kwargs)\<close> on one grid point. The defaults are
  \<open>zmin = 1e-4\<close> and \<open>zmax = 100\<close>.
\<close>

definition z_at_value :: "(real \<Rightarrow> error + real) \<Rightarrow> real \<Rightarrow> real \<Rightarrow> real \<Rightarrow> error + real" where
  "z_at_value func fval zmin zmax =
     rbind (log10 zmin) (\<lambda>lo.
     rbind (log10 zmax) (\<lambda>hi.
       let zs = logspace lo hi 1000 in
       rbind (map_res func zs) (\<lambda>fs. interp fval fs zs zmin zmax)))"

definition detector_to_source_frame ::
  "imported \<Rightarrow> real \<Rightarrow> real \<Rightarrow> real \<Rightarrow> real \<Rightarrow> real \<Rightarrow> real \<Rightarrow> real \<Rightarrow> real \<Rightarrow> error + real \<times> real \<times> real" where
  "detector_to_source_frame im m1z m2z dL H0 Om0 w0 zmin zmax =
     rbind (z_at_value (\<lambda>z. luminosity_distance im z H0 Om0 w0) dL zmin zmax) (\<lambda>z.
     rbind (fdiv m1z (1 + z)) (\<lambda>m1.
     rbind (fdiv m2z (1 + z)) (\<lambda>m2.
       Inr (m1, m2, z))))"

subsection \<open>The cosmology objects\<close>

record FlatwCDM =
  self_H0 :: real
  self_Om0 :: real
  self_w0 :: real
  self_zmin :: real
  self_zmax :: real
  self_name :: "string option"
  self_meta :: "(string \<times> string) list"

text \<open>\<open>FlatwCDM.__init__\<close>; the \<open>meta\<close> setter stores an empty dict for None.\<close>

definition FlatwCDM_init ::
  "real \<Rightarrow> real \<Rightarrow> real \<Rightarrow> real \<Rightarrow> real \<Rightarrow> string option \<Rightarrow> (string \<times> string) list option \<Rightarrow> FlatwCDM" where
  "FlatwCDM_init H0 Om0 w0 zmin zmax name meta =
     \<lparr>self_H0 = H0, self_Om0 = Om0, self_w0 = w0, self_zmin = zmin, self_zmax = zmax,
      self_name = name, self_meta = (case meta of None \<Rightarrow> [] | Some m \<Rightarrow> m)\<rparr>"

text \<open>\<open>FlatLambdaCDM.__init__\<close> calls the inherited constructor.\<close>

definition FlatLambdaCDM_init ::
  "real \<Rightarrow> real \<Rightarrow> real \<Rightarrow> real \<Rightarrow> string option \<Rightarrow> (string \<times> string) list option \<Rightarrow> FlatwCDM" where
  "FlatLambdaCDM_init H0 Om0 zmin zmax name meta = FlatwCDM_init H0 Om0 (- 1) zmin zmax name meta"

definition FlatwCDM_hubble_distance :: "imported \<Rightarrow> FlatwCDM \<Rightarrow> error + real" where
  "FlatwCDM_hubble_distance im self = hubble_distance im (self_H0 self)"

definition FlatwCDM_luminosity_distance :: "imported \<Rightarrow> FlatwCDM \<Rightarrow> real \<Rightarrow> error + real" where
  "FlatwCDM_luminosity_distance im self z =
     luminosity_distance im z (self_H0 self) (self_Om0 self) (self_w0 self)"

definition FlatwCDM_dLdH :: "imported \<Rightarrow> FlatwCDM \<Rightarrow> real \<Rightarrow> error + real" where
  "FlatwCDM_dLdH im self z =
     rbind (FlatwCDM_luminosity_distance im self z) (\<lambda>dL.
     rbind (FlatwCDM_hubble_distance im self) (\<lambda>dH. div64 dL dH))"

definition FlatwCDM_efunc :: "FlatwCDM \<Rightarrow> real \<Rightarrow> error + real" where
  "FlatwCDM_efunc self z = efunc z (self_Om0 self) (self_w0 self)"

definition FlatwCDM_lookback_time :: "imported \<Rightarrow> FlatwCDM \<Rightarrow> real \<Rightarrow> error + real" where
  "FlatwCDM_lookback_time im self z =
     lookback_time im z (self_H0 self) (self_Om0 self) (self_w0 self)"

text \<open>\<open>age\<close>; the default of \<open>zmax\<close> is \<open>1e5\<close>.\<close>

definition FlatwCDM_age :: "imported \<Rightarrow> FlatwCDM \<Rightarrow> real \<Rightarrow> real \<Rightarrow> error + real" where
  "FlatwCDM_age im self z zmax =
     rbind (FlatwCDM_lookback_time im self zmax) (\<lambda>t1.
     rbind (FlatwCDM_lookback_time im self z) (\<lambda>t0. Inr (rnd (t1 - t0))))"

subsection \<open>Sample inputs\<close>

text \<open>
  The speed of light in km/s as the float \<open>299792.458\<close>, an integral engine that
  answers \<open>3.0\<close>, and a cosmology with \<open>H0 = 100\<close>.
\<close>

definition sample_imported :: imported where
  "sample_imported =
     \<lparr>SPEED_OF_LIGHT_KM_PER_S = 2575197605394907 / 8589934592,
      GYR_KM_PER_S_MPC = 977.8,
      analytic_integral = (\<lambda>z Om0 w0 zpower. Inr 3)\<rparr>"

definition sample_cosmology :: FlatwCDM where
  "sample_cosmology = FlatLambdaCDM_init 100 0.3 (1 / 10000) 100 None None"

subsection \<open>The inversion as the specification words it\<close>

text \<open>
  The specification's account of \<open>z_at_value\<close>, for comparison with the code: a grid of
  points log-uniformly spaced between \<open>zmin\<close> and \<open>zmax\<close>; the result is \<open>zmin\<close> for a
  target below the least function value on the grid, \<open>zmax\<close> for a target above the
  greatest, and otherwise a point of the line through two neighbouring samples whose
  function values enclose the target.
\<close>

definition log_uniform_grid :: "real \<Rightarrow> real \<Rightarrow> nat \<Rightarrow> real list" where
  "log_uniform_grid zmin zmax n =
     map (\<lambda>i. zmin * (zmax / zmin) powr (real i / real (n - 1))) [0..<n]"

definition linear_interpolation :: "real list \<Rightarrow> real list \<Rightarrow> real \<Rightarrow> real \<Rightarrow> bool" where
  "linear_interpolation fs zs v z =
     (\<exists>j \<in> {0..<length fs - 1}.
          min (fs ! j) (fs ! (j + 1)) \<le> v \<and> v \<le> max (fs ! j) (fs ! (j + 1))
        \<and> min (zs ! j) (zs ! (j + 1)) \<le> z \<and> z \<le> max (zs ! j) (zs ! (j + 1))
        \<and> (z - zs ! j) * (fs ! (j + 1) - fs ! j) = (v - fs ! j) * (zs ! (j + 1) - zs ! j))"

definition z_at_value_spec :: "(real \<Rightarrow> real) \<Rightarrow> real \<Rightarrow> real \<Rightarrow> real \<Rightarrow> real \<Rightarrow> bool" where
  "z_at_value_spec f fval zmin zmax z =
     (let zs = log_uniform_grid zmin zmax 1000; fs = map f zs in
      if fval < Min (set fs) then z = zmin
      else if Max (set fs) < fval then z = zmax
      else linear_interpolation fs zs fval z)"

section \<open>Properties\<close>

subsection \<open>Rounding\<close>

text \<open>
  \<open>rnd\<close> moves a number by at most half a unit in its last place, leaves a float as it
  is, and is evaluated on a numeral from the binade that holds it.
\<close>

lemma round_half_even_error: "\<bar>of_int (round_half_even x) - x\<bar> \<le> 1 / 2"
  unfolding round_half_even_def Let_def by (auto simp: abs_if) linarith+

lemma round_half_even_of_int: "round_half_even (of_int n) = n"
  by (simp add: round_half_even_def)

lemma round_half_even_ge: "of_int a \<le> x \<Longrightarrow> a \<le> round_half_even x"
  unfolding round_half_even_def Let_def by (auto simp: le_floor_iff) linarith+

lemma round_half_even_le: "x \<le> of_int b \<Longrightarrow> round_half_even x \<le> b"
proof -
  assume a: "x \<le> of_int b"
  have f: "\<lfloor>x\<rfloor> \<le> b" using a by (simp add: floor_le_iff)
  show ?thesis
  proof (cases "\<lfloor>x\<rfloor> = b")
    case True
    then have "x = of_int b" using a by (metis floor_le_iff of_int_floor_le order.antisym order_refl)
    then show ?thesis by (simp add: round_half_even_of_int)
  next
    case False
    then have "\<lfloor>x\<rfloor> + 1 \<le> b" using f by simp
    then show ?thesis unfolding round_half_even_def Let_def by auto
  qed
qed

lemma floor_log2_bounds:
  assumes "0 < a"
  shows "2 powr of_int \<lfloor>log 2 a\<rfloor> \<le> a" and "a < 2 powr of_int (\<lfloor>log 2 a\<rfloor> + 1)"
  using floor_log_eq_powr_iff[OF assms, of 2 "\<lfloor>log 2 a\<rfloor>"] by simp_all

lemma rnd_pos_eval:
  assumes "2 powr of_int k \<le> a" and "a < 2 powr of_int (k + 1)"
  shows "rnd a = of_int (round_half_even (a / 2 powr of_int (k - 52))) * 2 powr of_int (k - 52)"
proof -
  have "0 < (2::real) powr of_int k" by simp
  with assms(1) have pos: "0 < a" by linarith
  have "\<lfloor>log 2 a\<rfloor> = k"
    using floor_log_eq_powr_iff[OF pos, of 2 k] assms by simp
  then show ?thesis using pos by (simp add: rnd_def)
qed

lemma rnd_minus: "rnd (- x) = - rnd x"
  by (simp add: rnd_def Let_def sgn_if)

lemma rnd_zero: "rnd 0 = 0"
  by (simp add: rnd_def)

lemma rnd_eval_up:
  assumes "2 ^ 52 \<le> a / 2 ^ n" and "a / 2 ^ n < 2 ^ 53"
  shows "rnd a = of_int (round_half_even (a / 2 ^ n)) * 2 ^ n"
proof -
  have p: "(2::real) powr of_int (int n + 52 - 52) = 2 ^ n"
    by (simp add: powr_realpow)
  have "(2::real) powr of_int (int n + 52) = 2 ^ n * 2 ^ 52"
    using powr_realpow[of 2 "n + 52"] by (simp add: power_add)
  moreover have "(2::real) powr of_int (int n + 52 + 1) = 2 ^ n * 2 ^ 53"
    using powr_realpow[of 2 "n + 53"] by (simp add: power_add add.commute)
  ultimately have "2 powr of_int (int n + 52) \<le> a" "a < 2 powr of_int (int n + 52 + 1)"
    using assms by (simp_all add: field_simps)
  from rnd_pos_eval[OF this] show ?thesis by (simp only: p)
qed

lemma rnd_eval_down:
  assumes "2 ^ 52 \<le> a * 2 ^ n" and "a * 2 ^ n < 2 ^ 53"
  shows "rnd a = of_int (round_half_even (a * 2 ^ n)) / 2 ^ n"
proof -
  have p: "(2::real) powr of_int (52 - int n - 52) = 1 / 2 ^ n"
    using powr_realpow[of 2 n] by (simp add: powr_minus divide_simps)
  have q: "(2::real) powr of_int (52 - int n) = 2 ^ 52 / 2 ^ n"
    using powr_realpow[of 2 n] powr_realpow[of 2 52] by (simp add: powr_diff)
  have r: "(2::real) powr of_int (52 - int n + 1) = 2 ^ 53 / 2 ^ n"
    using powr_realpow[of 2 n] powr_realpow[of 2 53] powr_diff[of 2 53 "real n"]
    by (simp add: algebra_simps)
  have "2 powr of_int (52 - int n) \<le> a" "a < 2 powr of_int (52 - int n + 1)"
    unfolding q r using assms by (simp_all add: field_simps)
  from rnd_pos_eval[OF this] show ?thesis by (simp only: p) simp
qed

lemma rnd_one: "rnd 1 = 1"
  using rnd_eval_down[of 1 52] by (simp add: round_half_even_def)

lemma rnd_pos_form:
  assumes "0 < a"
  defines "s \<equiv> (2::real) powr of_int (\<lfloor>log 2 a\<rfloor> - 52)"
  shows "rnd a = of_int (round_half_even (a / s)) * s"
    and "0 < s" and "2 ^ 52 * s \<le> a" and "a < 2 ^ 53 * s"
proof -
  show "rnd a = of_int (round_half_even (a / s)) * s"
    using assms(1) by (simp add: rnd_def s_def)
  show "0 < s" by (simp add: s_def)
  have e: "2 powr of_int \<lfloor>log 2 a\<rfloor> = 2 ^ 52 * s"
    using powr_realpow[of 2 52] by (simp add: s_def powr_diff)
  have e': "2 powr of_int (\<lfloor>log 2 a\<rfloor> + 1) = 2 ^ 53 * s"
    using e by (simp add: powr_add)
  show "2 ^ 52 * s \<le> a" using floor_log2_bounds(1)[OF assms(1)] by (simp only: e)
  show "a < 2 ^ 53 * s" using floor_log2_bounds(2)[OF assms(1)] by (simp only: e')
qed

lemma rnd_abs_error_pos:
  assumes "0 < a"
  shows "\<bar>rnd a - a\<bar> \<le> 2 powr of_int (\<lfloor>log 2 a\<rfloor> - 52) / 2"
proof -
  define s where "s = (2::real) powr of_int (\<lfloor>log 2 a\<rfloor> - 52)"
  note f = rnd_pos_form[OF assms, folded s_def]
  have "rnd a - a = (of_int (round_half_even (a / s)) - a / s) * s"
    using f(2) by (simp add: f(1) algebra_simps)
  then have "\<bar>rnd a - a\<bar> = \<bar>of_int (round_half_even (a / s)) - a / s\<bar> * s"
    using f(2) by (simp add: abs_mult)
  also have "\<dots> \<le> 1 / 2 * s"
    using f(2) round_half_even_error[of "a / s"] by (intro mult_right_mono) auto
  finally show ?thesis by (simp add: s_def)
qed

lemma rnd_rel_error: "\<bar>rnd x - x\<bar> \<le> \<bar>x\<bar> / 2 ^ 53"
proof -
  have pos: "\<bar>rnd a - a\<bar> \<le> a / 2 ^ 53" if "0 < a" for a
  proof -
    define s where "s = (2::real) powr of_int (\<lfloor>log 2 a\<rfloor> - 52)"
    note f = rnd_pos_form[OF that, folded s_def]
    have "\<bar>rnd a - a\<bar> \<le> s / 2" using rnd_abs_error_pos[OF that] by (simp add: s_def)
    also have "\<dots> \<le> a / 2 ^ 53" using f(3) by (simp add: field_simps)
    finally show ?thesis .
  qed
  consider "x = 0" | "0 < x" | "x < 0" by linarith
  then show ?thesis
  proof cases
    case 1
    then show ?thesis by (simp add: rnd_zero)
  next
    case 2
    then show ?thesis using pos[of x] by simp
  next
    case 3
    then show ?thesis using pos[of "- x"] by (simp add: rnd_minus)
  qed
qed

lemma rnd_idem: "rnd (rnd x) = rnd x"
proof -
  have pos: "rnd (rnd a) = rnd a" if "0 < a" for a
  proof -
    define E where "E = \<lfloor>log 2 a\<rfloor>"
    define s where "s = (2::real) powr of_int (E - 52)"
    define n where "n = round_half_even (a / s)"
    note f = rnd_pos_form[OF that, folded E_def, folded s_def]
    have w: "rnd a = of_int n * s" by (simp add: f(1) n_def)
    have b: "of_int (2 ^ 52) \<le> a / s" "a / s \<le> of_int (2 ^ 53)"
      using f(2,3,4) by (simp_all add: field_simps)
    have n: "2 ^ 52 \<le> n" "n \<le> 2 ^ 53"
      unfolding n_def using round_half_even_ge[OF b(1)] round_half_even_le[OF b(2)] by simp_all
    have sE: "2 powr of_int E = 2 ^ 52 * s" "2 powr of_int (E + 1) = 2 ^ 53 * s"
      "2 powr of_int (E + 1 + 1) = 2 ^ 54 * s" "2 powr of_int (E + 1 - 52) = 2 * s"
      using powr_realpow[of 2 52] by (simp_all add: s_def powr_diff powr_add)
    show ?thesis
    proof (cases "n = 2 ^ 53")
      case True
      then have w': "rnd a = 2 ^ 53 * s" by (simp add: w)
      have "2 powr of_int (E + 1) \<le> rnd a" "rnd a < 2 powr of_int (E + 1 + 1)"
        unfolding sE w' using f(2) by simp_all
      from rnd_pos_eval[OF this] have "rnd (rnd a) = of_int (round_half_even (rnd a / (2 * s))) * (2 * s)"
        by (simp only: sE)
      also have "rnd a / (2 * s) = of_int (2 ^ 52)" using f(2) by (simp add: w')
      finally have "rnd (rnd a) = of_int (round_half_even (of_int (2 ^ 52))) * (2 * s)" .
      then show ?thesis by (simp only: round_half_even_of_int w') simp
    next
      case False
      then have lt: "n < 2 ^ 53" using n by simp
      have "real_of_int n < 2 ^ 53" using lt by (metis of_int_less_iff of_int_numeral of_int_power)
      moreover have "2 ^ 52 \<le> real_of_int n" using n(1) by (metis of_int_le_iff of_int_numeral of_int_power)
      ultimately have "2 powr of_int E \<le> rnd a" "rnd a < 2 powr of_int (E + 1)"
        unfolding sE w using f(2) by simp_all
      from rnd_pos_eval[OF this] have "rnd (rnd a) = of_int (round_half_even (rnd a / s)) * s"
        by (simp only: s_def)
      also have "rnd a / s = of_int n" using f(2) by (simp add: w)
      finally have "rnd (rnd a) = of_int (round_half_even (of_int n)) * s" .
      then show ?thesis by (simp only: round_half_even_of_int w)
    qed
  qed
  consider "x = 0" | "0 < x" | "x < 0" by linarith
  then show ?thesis
  proof cases
    case 1
    then show ?thesis by (simp add: rnd_zero)
  next
    case 2
    then show ?thesis by (rule pos)
  next
    case 3
    then show ?thesis using pos[of "- x"] by (simp add: rnd_minus)
  qed
qed

lemma rnd_near_one:
  assumes "\<bar>s - 1\<bar> \<le> 1 / 2 ^ 54"
  shows "rnd s = 1"
proof (cases "1 \<le> s")
  case True
  have b: "2 ^ 52 \<le> s * 2 ^ 52" "s * 2 ^ 52 < 2 ^ 53" using True assms by simp_all
  have "s * 2 ^ 52 \<le> 2 ^ 52 + 1 / 4" using assms True by simp
  then have "real_of_int (round_half_even (s * 2 ^ 52)) \<le> 2 ^ 52 + 3 / 4"
    using round_half_even_error[of "s * 2 ^ 52"] by linarith
  then have "real_of_int (round_half_even (s * 2 ^ 52)) < real_of_int (2 ^ 52 + 1)" by simp
  then have "round_half_even (s * 2 ^ 52) < 2 ^ 52 + 1" by (simp only: of_int_less_iff)
  then have "round_half_even (s * 2 ^ 52) \<le> 2 ^ 52" by simp
  moreover have "2 ^ 52 \<le> round_half_even (s * 2 ^ 52)"
    using b(1) by (intro round_half_even_ge) simp
  ultimately have "round_half_even (s * 2 ^ 52) = 2 ^ 52" by simp
  then show ?thesis using rnd_eval_down[OF b] by simp
next
  case False
  then have lt: "s < 1" by simp
  have b: "2 ^ 52 \<le> s * 2 ^ 53" "s * 2 ^ 53 < 2 ^ 53" using lt assms by simp_all
  have lo: "2 ^ 53 - 1 / 2 \<le> s * 2 ^ 53" using assms lt by simp
  have fl: "\<lfloor>s * 2 ^ 53\<rfloor> = 2 ^ 53 - 1"
    using lo b(2) by (intro floor_unique) simp_all
  have "round_half_even (s * 2 ^ 53) = 2 ^ 53"
    using lo unfolding round_half_even_def Let_def fl by auto
  then show ?thesis using rnd_eval_down[OF b] by simp
qed

lemma rnd_abs_error_unit:
  assumes "0 \<le> y" and "y \<le> 1"
  shows "\<bar>rnd y - y\<bar> \<le> 1 / 2 ^ 54"
proof -
  consider "y = 0" | "y = 1" | "0 < y" "y < 1" using assms by linarith
  then show ?thesis
  proof cases
    case 1
    then show ?thesis by (simp add: rnd_zero)
  next
    case 2
    then show ?thesis by (simp add: rnd_one)
  next
    case 3
    have "log 2 y < 0" using 3 by simp
    then have "\<lfloor>log 2 y\<rfloor> \<le> - 1" by (simp add: floor_le_iff)
    then have "of_int (\<lfloor>log 2 y\<rfloor> - 52) \<le> (- 53 :: real)" by linarith
    then have "2 powr of_int (\<lfloor>log 2 y\<rfloor> - 52) \<le> 2 powr (- 53 :: real)"
      by (intro powr_mono) simp_all
    also have "\<dots> = 1 / 2 ^ 53" by (simp add: powr_minus divide_simps)
    finally show ?thesis using rnd_abs_error_pos[OF 3(1)] by simp
  qed
qed

subsection \<open>The index search\<close>

text \<open>
  Whatever the order of the samples, a search that ends inside the array ends on an
  index \<open>j\<close> with \<open>arr ! j \<le> key\<close>, and with \<open>key < arr ! (j + 1)\<close> unless \<open>j\<close> is the
  last index: every answer rests on comparisons the search has made.
\<close>

lemma bisect_bracket:
  assumes "imin \<le> imax" and "imax \<le> length arr"
    and "(0 < imin \<and> arr ! (imin - 1) \<le> key) \<or> (imin < imax \<and> arr ! imin \<le> key)"
    and "imax = length arr \<or> key < arr ! imax"
  shows "0 < bisect key arr imin imax \<and> bisect key arr imin imax \<le> length arr
         \<and> arr ! (bisect key arr imin imax - 1) \<le> key
         \<and> (bisect key arr imin imax = length arr \<or> key < arr ! bisect key arr imin imax)"
  using assms
proof (induction key arr imin imax rule: bisect.induct)
  case (1 key arr imin imax)
  show ?case
  proof (cases "imin < imax")
    case False
    have eq: "bisect key arr imin imax = imin"
      using False by (subst bisect.simps) simp
    show ?thesis using False "1.prems" by (simp only: eq) auto
  next
    case True
    define imid where "imid = imin + (imax - imin) div 2"
    have mid: "imin \<le> imid" "imid < imax" using True by (auto simp: imid_def)
    show ?thesis
    proof (cases "key \<ge> arr ! imid")
      case ge: True
      have eq: "bisect key arr imin imax = bisect key arr (imid + 1) imax"
        using True ge by (subst bisect.simps) (simp add: imid_def Let_def)
      have "0 < bisect key arr (imid + 1) imax \<and> bisect key arr (imid + 1) imax \<le> length arr
         \<and> arr ! (bisect key arr (imid + 1) imax - 1) \<le> key
         \<and> (bisect key arr (imid + 1) imax = length arr \<or> key < arr ! bisect key arr (imid + 1) imax)"
        using "1.IH"(1)[OF True imid_def ge] mid ge "1.prems" by simp
      then show ?thesis by (simp only: eq)
    next
      case lt: False
      have eq: "bisect key arr imin imax = bisect key arr imin imid"
        using True lt by (subst bisect.simps) (simp add: imid_def Let_def)
      have ne: "imin \<noteq> imid \<or> 0 < imin \<and> arr ! (imin - 1) \<le> key"
        using lt "1.prems"(3) by auto
      have low: "(0 < imin \<and> arr ! (imin - 1) \<le> key) \<or> (imin < imid \<and> arr ! imin \<le> key)"
        using "1.prems"(3) mid ne by auto
      have "0 < bisect key arr imin imid \<and> bisect key arr imin imid \<le> length arr
         \<and> arr ! (bisect key arr imin imid - 1) \<le> key
         \<and> (bisect key arr imin imid = length arr \<or> key < arr ! bisect key arr imin imid)"
        using "1.IH"(2)[OF True imid_def lt] mid lt low "1.prems"(2) by simp
      then show ?thesis by (simp only: eq)
    qed
  qed
qed

lemma linear_search_bracket:
  assumes "0 < i" and "i \<le> length arr" and "arr ! (i - 1) \<le> key"
  shows "0 < linear_search key arr i \<and> linear_search key arr i \<le> length arr
         \<and> arr ! (linear_search key arr i - 1) \<le> key
         \<and> (linear_search key arr i = length arr \<or> key < arr ! linear_search key arr i)"
  using assms
proof (induction key arr i rule: linear_search.induct)
  case (1 key arr i)
  show ?case
  proof (cases "i < length arr \<and> key \<ge> arr ! i")
    case True
    have eq: "linear_search key arr i = linear_search key arr (i + 1)"
      using True by (subst linear_search.simps) simp
    show ?thesis using "1.IH"[OF True] True by (simp only: eq) simp
  next
    case False
    have eq: "linear_search key arr i = i"
      using False by (subst linear_search.simps) auto
    show ?thesis using False "1.prems" by (simp only: eq) auto
  qed
qed

lemma binary_search_in_range:
  assumes ne: "arr \<noteq> []"
    and hi: "\<not> key > arr ! (length arr - 1)"
    and lo: "\<not> key < arr ! 0"
  shows "\<exists>j < length arr. binary_search_with_guess key arr g = int j \<and> arr ! j \<le> key
           \<and> (j + 1 = length arr \<or> key < arr ! (j + 1))"
proof -
  define len where "len = length arr"
  have res: "\<exists>j < length arr. int r - 1 = int j \<and> arr ! j \<le> key
           \<and> (j + 1 = length arr \<or> key < arr ! (j + 1))"
    if "0 < r \<and> r \<le> length arr \<and> arr ! (r - 1) \<le> key \<and> (r = length arr \<or> key < arr ! r)" for r
    using that by (intro exI[of _ "r - 1"]) auto
  show ?thesis
  proof (cases "len \<le> 4")
    case True
    have eq: "binary_search_with_guess key arr g = int (linear_search key arr 1) - 1"
      using hi lo True by (simp add: binary_search_with_guess_def Let_def len_def)
    have "0 < (1::nat)" "1 \<le> length arr" "arr ! (1 - 1) \<le> key"
      using ne lo by (auto simp: Suc_le_eq)
    from res[OF linear_search_bracket[OF this]] show ?thesis by (simp only: eq)
  next
    case False
    define guess where "guess = max 1 (min g (len - 3))"
    have g: "1 \<le> guess" "guess + 3 \<le> len" using False by (auto simp: guess_def)
    have unf: "binary_search_with_guess key arr g =
        (if key < arr ! guess then
          (if key < arr ! (guess - 1) then
             int (bisect key arr
                   (if guess > LIKELY_IN_CACHE_SIZE \<and> key \<ge> arr ! (guess - LIKELY_IN_CACHE_SIZE)
                    then guess - LIKELY_IN_CACHE_SIZE else 0)
                   (guess - 1)) - 1
           else int guess - 1)
        else if key < arr ! (guess + 1) then int guess
        else if key < arr ! (guess + 2) then int guess + 1
        else
          int (bisect key arr (guess + 2)
                (if guess + LIKELY_IN_CACHE_SIZE + 1 < len \<and> key < arr ! (guess + LIKELY_IN_CACHE_SIZE)
                 then guess + LIKELY_IN_CACHE_SIZE else len)) - 1)"
      unfolding binary_search_with_guess_def Let_def guess_def len_def
      by (simp only: hi lo False[unfolded len_def] if_False)
    consider (a) "key < arr ! guess" "key < arr ! (guess - 1)"
      | (b) "key < arr ! guess" "\<not> key < arr ! (guess - 1)"
      | (c) "\<not> key < arr ! guess" "key < arr ! (guess + 1)"
      | (d) "\<not> key < arr ! guess" "\<not> key < arr ! (guess + 1)" "key < arr ! (guess + 2)"
      | (e) "\<not> key < arr ! guess" "\<not> key < arr ! (guess + 1)" "\<not> key < arr ! (guess + 2)"
      by blast
    then show ?thesis
    proof cases
      case a
      define imin where "imin = (if guess > LIKELY_IN_CACHE_SIZE \<and> key \<ge> arr ! (guess - LIKELY_IN_CACHE_SIZE)
                    then guess - LIKELY_IN_CACHE_SIZE else 0)"
      have eq: "binary_search_with_guess key arr g = int (bisect key arr imin (guess - 1)) - 1"
        using a by (simp add: unf imin_def)
      have g1: "guess \<noteq> 1" using a(2) lo by auto
      have p1: "imin \<le> guess - 1" by (auto simp: imin_def LIKELY_IN_CACHE_SIZE_def)
      have p2: "guess - 1 \<le> length arr" using g by (simp add: len_def)
      have p3: "(0 < imin \<and> arr ! (imin - 1) \<le> key) \<or> (imin < guess - 1 \<and> arr ! imin \<le> key)"
        using g g1 lo by (auto simp: imin_def LIKELY_IN_CACHE_SIZE_def)
      have p4: "guess - 1 = length arr \<or> key < arr ! (guess - 1)" using a by simp
      from res[OF bisect_bracket[OF p1 p2 p3 p4]] show ?thesis by (simp only: eq)
    next
      case b
      have eq: "binary_search_with_guess key arr g = int (guess - 1)"
        using b g by (simp add: unf)
      show ?thesis using b g by (intro exI[of _ "guess - 1"]) (auto simp: eq len_def)
    next
      case c
      have eq: "binary_search_with_guess key arr g = int guess"
        using c by (simp add: unf)
      show ?thesis using c g by (intro exI[of _ guess]) (auto simp: eq len_def)
    next
      case d
      have eq: "binary_search_with_guess key arr g = int (guess + 1)"
        using d by (simp add: unf)
      show ?thesis using d g by (intro exI[of _ "guess + 1"]) (auto simp: eq len_def)
    next
      case e
      define imax where "imax = (if guess + LIKELY_IN_CACHE_SIZE + 1 < len \<and> key < arr ! (guess + LIKELY_IN_CACHE_SIZE)
                 then guess + LIKELY_IN_CACHE_SIZE else len)"
      have eq: "binary_search_with_guess key arr g = int (bisect key arr (guess + 2) imax) - 1"
        using e by (simp add: unf imax_def)
      have p1: "guess + 2 \<le> imax" using g by (auto simp: imax_def LIKELY_IN_CACHE_SIZE_def)
      have p2: "imax \<le> length arr" using g by (auto simp: imax_def len_def)
      have p3: "(0 < guess + 2 \<and> arr ! (guess + 2 - 1) \<le> key) \<or> (guess + 2 < imax \<and> arr ! (guess + 2) \<le> key)"
        using e by auto
      have p4: "imax = length arr \<or> key < arr ! imax" by (auto simp: imax_def len_def)
      from res[OF bisect_bracket[OF p1 p2 p3 p4]] show ?thesis by (simp only: eq)
    qed
  qed
qed

lemma binary_search_above:
  "arr \<noteq> [] \<Longrightarrow> key > arr ! (length arr - 1) \<Longrightarrow> binary_search_with_guess key arr g = int (length arr)"
  by (simp add: binary_search_with_guess_def Let_def)

lemma binary_search_below:
  "arr \<noteq> [] \<Longrightarrow> \<not> key > arr ! (length arr - 1) \<Longrightarrow> key < arr ! 0 \<Longrightarrow> binary_search_with_guess key arr g = - 1"
  by (simp add: binary_search_with_guess_def Let_def)

subsection \<open>Interpolation\<close>

lemma interp_cases:
  assumes len: "length fp = length xp" and two: "2 \<le> length xp"
  shows "(xp ! (length xp - 1) < x \<and> interp x xp fp left right = Inr right)
       \<or> (\<not> xp ! (length xp - 1) < x \<and> x < xp ! 0 \<and> interp x xp fp left right = Inr left)
       \<or> (\<exists>j. j < length xp \<and> xp ! j = x \<and> interp x xp fp left right = Inr (fp ! j))
       \<or> (\<exists>j. j + 1 < length xp \<and> xp ! j < x \<and> x < xp ! (j + 1)
             \<and> interp x xp fp left right
                 = Inr ((fp ! (j + 1) - fp ! j) / (xp ! (j + 1) - xp ! j) * (x - xp ! j) + fp ! j))"
proof -
  have ne: "xp \<noteq> []" using two by auto
  have unf: "interp x xp fp left right =
       (let j = binary_search_with_guess x xp 0 in
        if j = - 1 then Inr left
        else if j = int (length xp) then Inr right
        else if j = int (length xp) - 1 then Inr (fp ! nat j)
        else if xp ! nat j = x then Inr (fp ! nat j)
        else
          rbind (fdiv (fp ! (nat j + 1) - fp ! nat j) (xp ! (nat j + 1) - xp ! nat j)) (\<lambda>slope.
            Inr (slope * (x - xp ! nat j) + fp ! nat j)))"
    using ne len two by (simp add: interp_def)
  consider (above) "xp ! (length xp - 1) < x"
    | (below) "\<not> xp ! (length xp - 1) < x" "x < xp ! 0"
    | (inside) "\<not> xp ! (length xp - 1) < x" "\<not> x < xp ! 0"
    by blast
  then show ?thesis
  proof cases
    case above
    have "binary_search_with_guess x xp 0 = int (length xp)"
      using binary_search_above[OF ne] above by simp
    then have "interp x xp fp left right = Inr right"
      by (simp add: unf Let_def)
    with above show ?thesis by simp
  next
    case below
    have "binary_search_with_guess x xp 0 = - 1"
      using binary_search_below[OF ne below] .
    then have "interp x xp fp left right = Inr left"
      by (simp add: unf Let_def)
    with below show ?thesis by simp
  next
    case inside
    obtain j where j: "j < length xp" "binary_search_with_guess x xp 0 = int j" "xp ! j \<le> x"
      "j + 1 = length xp \<or> x < xp ! (j + 1)"
      using binary_search_in_range[OF ne inside, of 0] by blast
    show ?thesis
    proof (cases "j + 1 = length xp")
      case True
      have r: "interp x xp fp left right = Inr (fp ! j)"
        by (simp add: unf j(2) Let_def True[symmetric])
      have "length xp - 1 = j" using True by simp
      then have "x \<le> xp ! j" using inside(1) by simp
      then have xeq: "xp ! j = x" using j(3) by simp
      show ?thesis using r xeq j(1) by blast
    next
      case False
      then have i: "int j \<noteq> int (length xp) - 1" "int j \<noteq> int (length xp)" "j + 1 < length xp"
        using j(1) by linarith+
      have up: "x < xp ! (j + 1)" using False j(4) by simp
      show ?thesis
      proof (cases "xp ! j = x")
        case True
        then have "interp x xp fp left right = Inr (fp ! j)"
          using i by (simp add: unf j(2) Let_def)
        then show ?thesis using True j(1) by blast
      next
        case ne': False
        then have lt: "xp ! j < x" using j(3) by simp
        have d: "xp ! (j + 1) - xp ! j \<noteq> 0" using lt up by simp
        have "interp x xp fp left right
                 = Inr ((fp ! (j + 1) - fp ! j) / (xp ! (j + 1) - xp ! j) * (x - xp ! j) + fp ! j)"
          using i ne' d by (simp add: unf j(2) Let_def fdiv_def rbind_def)
        then show ?thesis using i(3) lt up by blast
      qed
    qed
  qed
qed


lemma interp_above:
  assumes "length fp = length xp" and "2 \<le> length xp" and "xp ! (length xp - 1) < x"
  shows "interp x xp fp left right = Inr right"
proof -
  have ne: "xp \<noteq> []" using assms by auto
  have "binary_search_with_guess x xp 0 = int (length xp)"
    using binary_search_above[OF ne] assms by simp
  then show ?thesis using assms ne by (simp add: interp_def Let_def)
qed

lemma segment_between:
  fixes a b p q x lo hi :: real
  assumes "p < x" "x < q" "lo \<le> a" "a \<le> hi" "lo \<le> b" "b \<le> hi"
  shows "lo \<le> (b - a) / (q - p) * (x - p) + a \<and> (b - a) / (q - p) * (x - p) + a \<le> hi"
proof -
  define t where "t = (x - p) / (q - p)"
  have t: "0 \<le> t" "t \<le> 1" using assms by (auto simp: t_def)
  have eq: "(b - a) / (q - p) * (x - p) + a = (1 - t) * a + t * b"
    by (simp add: t_def algebra_simps add_divide_distrib diff_divide_distrib)
  have "lo = (1 - t) * lo + t * lo" by (simp add: algebra_simps)
  also have "\<dots> \<le> (1 - t) * a + t * b"
    using t assms by (intro add_mono mult_left_mono) auto
  finally have 1: "lo \<le> (1 - t) * a + t * b" .
  have "(1 - t) * a + t * b \<le> (1 - t) * hi + t * hi"
    using t assms by (intro add_mono mult_left_mono) auto
  also have "\<dots> = hi" by (simp add: algebra_simps)
  finally have 2: "(1 - t) * a + t * b \<le> hi" .
  show ?thesis unfolding eq using 1 2 by (rule conjI)
qed

lemma interp_between:
  assumes len: "length fp = length xp" and two: "2 \<le> length xp"
    and fp: "\<And>j. j < length fp \<Longrightarrow> lo \<le> fp ! j \<and> fp ! j \<le> hi"
    and l: "lo \<le> left" "left \<le> hi" and r: "lo \<le> right" "right \<le> hi"
  shows "\<exists>y. interp x xp fp left right = Inr y \<and> lo \<le> y \<and> y \<le> hi"
proof -
  from interp_cases[OF len two, of x left right] show ?thesis
  proof (elim disjE exE conjE)
    fix j assume j: "j + 1 < length xp" "xp ! j < x" "x < xp ! (j + 1)"
      and e: "interp x xp fp left right
                 = Inr ((fp ! (j + 1) - fp ! j) / (xp ! (j + 1) - xp ! j) * (x - xp ! j) + fp ! j)"
    have b: "lo \<le> fp ! j" "fp ! j \<le> hi" "lo \<le> fp ! (j + 1)" "fp ! (j + 1) \<le> hi"
      using fp[of j] fp[of "j + 1"] j(1) len by auto
    from segment_between[OF j(2,3) b] e show ?thesis by simp
  qed (use l r fp len in auto)
qed

lemma linear_interpolation_iff:
  "linear_interpolation fs zs v z \<longleftrightarrow>
     (\<exists>j. j + 1 < length fs
        \<and> min (fs ! j) (fs ! (j + 1)) \<le> v \<and> v \<le> max (fs ! j) (fs ! (j + 1))
        \<and> min (zs ! j) (zs ! (j + 1)) \<le> z \<and> z \<le> max (zs ! j) (zs ! (j + 1))
        \<and> (z - zs ! j) * (fs ! (j + 1) - fs ! j) = (v - fs ! j) * (zs ! (j + 1) - zs ! j))"
  unfolding linear_interpolation_def by (auto simp: less_diff_conv)

lemma interp_is_linear_interpolation:
  assumes len: "length fp = length xp" and two: "2 \<le> length xp"
  shows "(xp ! (length xp - 1) < x \<and> interp x xp fp left right = Inr right)
       \<or> (\<not> xp ! (length xp - 1) < x \<and> x < xp ! 0 \<and> interp x xp fp left right = Inr left)
       \<or> (\<exists>y. interp x xp fp left right = Inr y \<and> linear_interpolation xp fp x y)"
  using interp_cases[OF len two, of x left right]
proof (elim disjE exE conjE)
  fix j assume j: "j < length xp" "xp ! j = x" and e: "interp x xp fp left right = Inr (fp ! j)"
  define k where "k = (if j + 1 < length xp then j else j - 1)"
  have k: "k + 1 < length xp" "j = k \<or> j = k + 1" using j(1) two by (auto simp: k_def)
  have "linear_interpolation xp fp x (fp ! j)"
    unfolding linear_interpolation_iff
    using k j(2) by (intro exI[of _ k]) (auto simp: algebra_simps)
  with e show ?thesis by blast
next
  fix j assume j: "j + 1 < length xp" "xp ! j < x" "x < xp ! (j + 1)"
    and e: "interp x xp fp left right
                 = Inr ((fp ! (j + 1) - fp ! j) / (xp ! (j + 1) - xp ! j) * (x - xp ! j) + fp ! j)"
  define y where "y = (fp ! (j + 1) - fp ! j) / (xp ! (j + 1) - xp ! j) * (x - xp ! j) + fp ! j"
  have b: "min (fp ! j) (fp ! (j + 1)) \<le> y \<and> y \<le> max (fp ! j) (fp ! (j + 1))"
    unfolding y_def by (rule segment_between[OF j(2,3)]) auto
  have d: "xp ! (j + 1) - xp ! j \<noteq> 0" using j by simp
  have "(y - fp ! j) * (xp ! (j + 1) - xp ! j) = (x - xp ! j) * (fp ! (j + 1) - fp ! j)"
    using d by (simp add: y_def)
  then have "linear_interpolation xp fp x y"
    unfolding linear_interpolation_iff
    using j b by (intro exI[of _ j]) auto
  with e show ?thesis by (auto simp: y_def)
qed auto

subsection \<open>The grid\<close>

lemma length_linspace: "length (linspace start stop num) = num"
  by (simp add: linspace_def)

lemma nth_linspace:
  assumes "2 \<le> num" and "i < num"
  shows "linspace start stop num ! i = start + real i / real (num - 1) * (stop - start)"
proof (cases "i < num - 1")
  case True
  then show ?thesis using assms by (simp add: linspace_def nth_append)
next
  case False
  then have "i = num - 1" using assms by simp
  then show ?thesis using assms by (simp add: linspace_def nth_append)
qed

lemma logspace_is_log_uniform:
  assumes "0 < zmin" and "0 < zmax" and "2 \<le> num"
  shows "logspace (log 10 zmin) (log 10 zmax) num = log_uniform_grid zmin zmax num"
proof (rule nth_equalityI)
  show "length (logspace (log 10 zmin) (log 10 zmax) num) = length (log_uniform_grid zmin zmax num)"
    by (simp add: logspace_def log_uniform_grid_def length_linspace)
next
  fix i assume "i < length (logspace (log 10 zmin) (log 10 zmax) num)"
  then have i: "i < num" by (simp add: logspace_def length_linspace)
  define t where "t = real i / real (num - 1)"
  have "logspace (log 10 zmin) (log 10 zmax) num ! i
          = 10 powr (log 10 zmin + t * (log 10 zmax - log 10 zmin))"
    using i assms(3) by (simp add: logspace_def length_linspace nth_linspace t_def)
  also have "\<dots> = 10 powr (log 10 zmin) * (10 powr (log 10 zmax - log 10 zmin)) powr t"
    by (simp add: powr_add powr_powr mult.commute)
  also have "10 powr (log 10 zmax - log 10 zmin) = zmax / zmin"
    using assms by (simp add: powr_diff)
  also have "10 powr (log 10 zmin) = zmin"
    using assms by simp
  finally show "logspace (log 10 zmin) (log 10 zmax) num ! i = log_uniform_grid zmin zmax num ! i"
    using i by (simp add: log_uniform_grid_def t_def)
qed

lemma length_log_uniform_grid: "length (log_uniform_grid zmin zmax n) = n"
  by (simp add: log_uniform_grid_def)

lemma nth_log_uniform_grid:
  "i < n \<Longrightarrow> log_uniform_grid zmin zmax n ! i = zmin * (zmax / zmin) powr (real i / real (n - 1))"
  by (simp add: log_uniform_grid_def)

lemma log_uniform_grid_first:
  "0 < zmin \<Longrightarrow> 0 < zmax \<Longrightarrow> 0 < n \<Longrightarrow> log_uniform_grid zmin zmax n ! 0 = zmin"
  by (simp add: nth_log_uniform_grid)

lemma log_uniform_grid_last:
  "0 < zmin \<Longrightarrow> 0 < zmax \<Longrightarrow> 2 \<le> n \<Longrightarrow> log_uniform_grid zmin zmax n ! (n - 1) = zmax"
  by (simp add: nth_log_uniform_grid)

lemma log_uniform_grid_strict_mono:
  assumes "0 < zmin" and "zmin < zmax" and "i < j" and "j < n"
  shows "log_uniform_grid zmin zmax n ! i < log_uniform_grid zmin zmax n ! j"
proof -
  have r: "1 < zmax / zmin" using assms by simp
  have "real i / real (n - 1) < real j / real (n - 1)"
    using assms by (intro divide_strict_right_mono) auto
  then have "(zmax / zmin) powr (real i / real (n - 1)) < (zmax / zmin) powr (real j / real (n - 1))"
    using r by simp
  then show ?thesis using assms by (simp add: nth_log_uniform_grid)
qed

lemma log_uniform_grid_bounds:
  assumes "0 < zmin" and "zmin \<le> zmax" and "i < n" and "2 \<le> n"
  shows "zmin \<le> log_uniform_grid zmin zmax n ! i \<and> log_uniform_grid zmin zmax n ! i \<le> zmax"
proof -
  have r: "1 \<le> zmax / zmin" using assms by simp
  define t where "t = real i / real (n - 1)"
  have t: "0 \<le> t" "t \<le> 1" using assms by (auto simp: t_def)
  have "(zmax / zmin) powr 0 \<le> (zmax / zmin) powr t"
    using r t by (intro powr_mono) auto
  then have 1: "1 \<le> (zmax / zmin) powr t" using assms by simp
  have "(zmax / zmin) powr t \<le> (zmax / zmin) powr 1"
    using r t by (intro powr_mono) auto
  then have 2: "(zmax / zmin) powr t \<le> zmax / zmin" using assms by simp
  have "zmin * 1 \<le> zmin * (zmax / zmin) powr t"
    using 1 assms by (intro mult_left_mono) auto
  moreover have "zmin * (zmax / zmin) powr t \<le> zmin * (zmax / zmin)"
    using 2 assms by (intro mult_left_mono) auto
  ultimately show ?thesis using assms by (simp add: nth_log_uniform_grid t_def)
qed

lemma map_res_total: "map_res (\<lambda>z. Inr (f z)) xs = Inr (map f xs)"
  by (induction xs) (simp_all add: rbind_def)

lemma map_res_Inr:
  "map_res f xs = Inr ys \<Longrightarrow> length ys = length xs \<and> (\<forall>i < length xs. f (xs ! i) = Inr (ys ! i))"
proof (induction xs arbitrary: ys)
  case Nil
  then show ?case by simp
next
  case (Cons x xs)
  then obtain y ys' where y: "f x = Inr y" "map_res f xs = Inr ys'" "ys = y # ys'"
    by (auto simp: rbind_def split: sum.splits)
  with Cons.IH[OF y(2)] show ?case by (auto simp: nth_Cons split: nat.splits)
qed

lemma map_res_defined:
  "(\<forall>x \<in> set xs. \<exists>y. f x = Inr y) \<Longrightarrow> \<exists>ys. map_res f xs = Inr ys"
  by (induction xs) (auto simp: rbind_def)

lemma z_at_value_unfold:
  assumes "0 < zmin" and "0 < zmax"
  shows "z_at_value func fval zmin zmax =
     rbind (map_res func (log_uniform_grid zmin zmax 1000)) (\<lambda>fs.
       interp fval fs (log_uniform_grid zmin zmax 1000) zmin zmax)"
  using assms logspace_is_log_uniform[OF assms, of 1000]
  by (simp add: z_at_value_def log10_def rbind_def Let_def split: sum.splits)

lemma z_at_value_nonpositive:
  "zmin \<le> 0 \<or> zmax \<le> 0 \<Longrightarrow> z_at_value func fval zmin zmax = Inl NotFinite"
  by (auto simp add: z_at_value_def log10_def rbind_def)

lemma log_uniform_grid_between:
  assumes "0 < zmin" and "0 < zmax" and "i < n" and "2 \<le> n"
  shows "min zmin zmax \<le> log_uniform_grid zmin zmax n ! i
       \<and> log_uniform_grid zmin zmax n ! i \<le> max zmin zmax"
proof (cases "zmin \<le> zmax")
  case True
  then show ?thesis using log_uniform_grid_bounds[OF assms(1) True assms(3,4)] by simp
next
  case False
  define r where "r = zmax / zmin"
  have r: "0 \<le> r" "r \<le> 1" using assms False by (auto simp: r_def)
  define t where "t = real i / real (n - 1)"
  have t: "0 \<le> t" "t \<le> 1" using assms by (auto simp: t_def)
  have "r powr t \<le> r powr 0"
    using r t by (intro powr_mono') auto
  then have 1: "r powr t \<le> 1" using assms False by (simp add: r_def)
  have "r powr 1 \<le> r powr t"
    using r t by (intro powr_mono') auto
  then have 2: "r \<le> r powr t" using assms by (simp add: r_def)
  have "zmin * r \<le> zmin * r powr t"
    using 2 assms by (intro mult_left_mono) auto
  moreover have "zmin * r powr t \<le> zmin * 1"
    using 1 assms by (intro mult_left_mono) auto
  ultimately show ?thesis
    using assms False by (simp add: nth_log_uniform_grid t_def r_def)
qed

lemma z_at_value_range:
  assumes "z_at_value func fval zmin zmax = Inr z"
  shows "0 < zmin \<and> 0 < zmax \<and> min zmin zmax \<le> z \<and> z \<le> max zmin zmax"
proof -
  have pos: "0 < zmin" "0 < zmax"
    using assms z_at_value_nonpositive[of zmin zmax func fval] by (auto simp: not_le[symmetric])
  define G where "G = log_uniform_grid zmin zmax 1000"
  obtain fs where fs: "map_res func G = Inr fs" "interp fval fs G zmin zmax = Inr z"
    using assms unfolding z_at_value_unfold[OF pos] G_def
    by (auto simp: rbind_def split: sum.splits)
  have len: "length G = length fs" "2 \<le> length fs"
    using map_res_Inr[OF fs(1)] by (simp_all add: G_def length_log_uniform_grid)
  have "\<exists>y. interp fval fs G zmin zmax = Inr y \<and> min zmin zmax \<le> y \<and> y \<le> max zmin zmax"
  proof (rule interp_between[OF len])
    fix j assume "j < length G"
    then show "min zmin zmax \<le> G ! j \<and> G ! j \<le> max zmin zmax"
      unfolding G_def by (intro log_uniform_grid_between pos) (simp_all add: length_log_uniform_grid)
  qed simp_all
  with fs(2) pos show ?thesis by simp
qed


subsection \<open>The formula layer\<close>

text \<open>
  C8 (as amended): for every float \<open>Om0\<close> with \<open>0 \<le> Om0 \<le> 1\<close> and every \<open>w0\<close>,
  \<open>efunc(0, Om0, w0)\<close> is 1: both powers of \<open>1 + z\<close> are 1, the rounded difference
  \<open>1 - Om0\<close> is within half a unit in the last place of the exact one, and so the sum
  of the two density terms rounds to 1. The claim as stated asks this of every \<open>Om0\<close>;
  outside \<open>[0, 1]\<close> the sum need not round to 1.
\<close>

theorem efunc_at_zero:
  assumes "rnd Om0 = Om0" and "0 \<le> Om0" and "Om0 \<le> 1"
  shows "efunc 0 Om0 w0 = Inr 1"
proof -
  define B where "B = rnd (1 - Om0)"
  have "\<bar>B - (1 - Om0)\<bar> \<le> 1 / 2 ^ 54"
    unfolding B_def using assms by (intro rnd_abs_error_unit) simp_all
  then have "\<bar>Om0 + B - 1\<bar> \<le> 1 / 2 ^ 54" by (simp add: algebra_simps)
  then have sum: "rnd (Om0 + B) = 1" by (rule rnd_near_one)
  have B: "rnd B = B" by (simp add: B_def rnd_idem)
  show ?thesis
    by (simp add: efunc_def fpow_def rbind_def rnd_one assms(1) B_def[symmetric] B sum)
qed

theorem efunc_at_zero_witness:
  "rnd (5404319552844595 / 18014398509481984) = 5404319552844595 / 18014398509481984
   \<and> efunc 0 (5404319552844595 / 18014398509481984) (- 1) = Inr 1"
proof -
  have d: "rnd (5404319552844595 / 18014398509481984) = 5404319552844595 / 18014398509481984"
    using rnd_eval_down[of "5404319552844595 / 18014398509481984" 54]
    by (simp add: round_half_even_def)
  from efunc_at_zero[OF d, of "- 1"] d show ?thesis by simp
qed

text \<open>
  \<open>Om0 = 1e16\<close> is a float; \<open>1 - 1e16\<close> rounds to \<open>- 1e16\<close>, the two density terms
  cancel, and \<open>efunc(0, 1e16, -1)\<close> is 0.
\<close>

theorem efunc_at_zero_large_Om0_counterexample:
  "rnd 10000000000000000 = 10000000000000000
   \<and> efunc 0 10000000000000000 (- 1) = Inr 0"
proof -
  have a: "rnd 10000000000000000 = 10000000000000000"
    using rnd_eval_up[of 10000000000000000 1] by (simp add: round_half_even_def)
  have b: "rnd (- 9999999999999999) = - 10000000000000000"
    using rnd_eval_up[of 9999999999999999 1] rnd_minus[of 9999999999999999]
    by (simp add: round_half_even_def)
  have c: "rnd (- 10000000000000000) = - 10000000000000000"
    using rnd_minus[of 10000000000000000] by (simp add: a)
  have "efunc 0 10000000000000000 (- 1) = Inr 0"
    by (simp add: efunc_def fpow_def rbind_def rnd_one rnd_zero a b c)
  with a show ?thesis by simp
qed

text \<open>
  C3: \<open>luminosity_distance(z, H0, Om0, w0)\<close> is \<open>(1 + z)\<close> times
  \<open>comoving_distance(z, H0, Om0, w0)\<close>, for all arguments, the sum and the product
  being the float operations; where the comoving distance fails, the luminosity distance
  fails in the same way.
\<close>

theorem luminosity_distance_is_scaled_comoving_distance:
  "luminosity_distance im z H0 Om0 w0 =
     (case comoving_distance im z H0 Om0 w0 of
        Inl e \<Rightarrow> Inl e
      | Inr dC \<Rightarrow> Inr (rnd (rnd (1 + z) * dC)))"
  by (simp add: luminosity_distance_def rbind_def)

text \<open>
  C7: \<open>comoving_volume(z, H0, Om0, w0)\<close> is \<open>4/3 * pi\<close> times the cube of
  \<open>comoving_distance(z, H0, Om0, w0)\<close>, for all arguments, evaluated from left to right
  in float operations; where the comoving distance fails, the volume fails in the same
  way.
\<close>

theorem comoving_volume_is_sphere_of_comoving_distance:
  "comoving_volume im z H0 Om0 w0 =
     (case comoving_distance im z H0 Om0 w0 of
        Inl e \<Rightarrow> Inl e
      | Inr dC \<Rightarrow> Inr (rnd (rnd (rnd (4 / 3) * pi64) * rnd (dC ^ 3))))"
  by (simp add: comoving_volume_def rbind_def split: sum.splits)

text \<open>
  C1: \<open>hubble_parameter(z, H0, Om0, w0)\<close> is meant to return
  \<open>hubble_distance(H0) * inv_efunc(z, Om0, w0)\<close>. It never does: the call passes the
  keyword \<open>H0\<close> to \<open>inv_efunc\<close>, which has no such parameter, so every call with
  \<open>H0 \<noteq> 0\<close> raises TypeError (and \<open>H0 = 0\<close> already fails in \<open>hubble_distance\<close>).
\<close>

theorem hubble_parameter_raises:
  "hubble_parameter im z H0 Om0 w0 = (if H0 = 0 then Inl NotFinite else Inl (TypeError ''H0''))"
  by (simp add: hubble_parameter_def hubble_distance_kw_def inv_efunc_kw_def
      unexpected_keyword_def required_def hubble_distance_def div64_def rbind_def)

subsection \<open>The cosmology objects\<close>

text \<open>
  C5: \<open>FlatLambdaCDM(H0, Om0, ...)\<close> builds the very object that
  \<open>FlatwCDM(H0, Om0, w0=-1, ...)\<close> builds, so the \<open>efunc\<close> operations of the two agree
  at every \<open>z\<close>; in particular for \<open>H0 = 70\<close> and \<open>Om0 = 0.3\<close>.
\<close>

theorem FlatLambdaCDM_is_FlatwCDM_with_w0_minus_one:
  "FlatLambdaCDM_init H0 Om0 zmin zmax name meta = FlatwCDM_init H0 Om0 (- 1) zmin zmax name meta
   \<and> FlatwCDM_efunc (FlatLambdaCDM_init H0 Om0 zmin zmax name meta) z
       = FlatwCDM_efunc (FlatwCDM_init H0 Om0 (- 1) zmin zmax name meta) z
   \<and> FlatwCDM_efunc (FlatLambdaCDM_init 70 0.3 zmin zmax name meta) z
       = FlatwCDM_efunc (FlatwCDM_init 70 0.3 (- 1) zmin zmax name meta) z"
  by (simp add: FlatLambdaCDM_init_def)

text \<open>
  C6: for every cosmology object, every \<open>z\<close> and every \<open>zmax\<close>, \<open>age(z, zmax)\<close> is
  \<open>lookback_time(zmax) - lookback_time(z)\<close>, one float subtraction; the lookback time
  at \<open>zmax\<close> is computed first, and a failure of either lookback time is the failure of
  \<open>age\<close>.
\<close>

theorem age_is_difference_of_lookback_times:
  "FlatwCDM_age im self z zmax =
     (case FlatwCDM_lookback_time im self zmax of
        Inl e \<Rightarrow> Inl e
      | Inr t1 \<Rightarrow>
          (case FlatwCDM_lookback_time im self z of
             Inl e \<Rightarrow> Inl e
           | Inr t0 \<Rightarrow> Inr (rnd (t1 - t0))))"
  by (simp add: FlatwCDM_age_def rbind_def)

subsection \<open>Redshift inversion\<close>

text \<open>
  C2 (as amended): for \<open>0 < zmin < zmax\<close> (the defaults \<open>1e-4\<close> and \<open>100\<close> among them),
  every \<open>func\<close> that is non-decreasing on \<open>[zmin, zmax]\<close> and every target,
  \<open>z_at_value\<close> builds the grid of exactly 1000 points log-uniformly spaced from \<open>zmin\<close>
  to \<open>zmax\<close>, evaluates \<open>func\<close> on it and interpolates once: it returns \<open>zmin\<close> for a
  target below the least function value on the grid, \<open>zmax\<close> for a target above the
  greatest, and otherwise the linear interpolation between two neighbouring samples;
  the result never leaves \<open>[zmin, zmax]\<close>. The claim as stated asks this of every
  monotonic function; for a decreasing one the interpolation is not what comes back.
\<close>

theorem z_at_value_interpolates_on_log_grid:
  assumes "0 < zmin" and "zmin < zmax" and "mono_on {zmin..zmax} f"
  shows "length (logspace (log 10 zmin) (log 10 zmax) 1000) = 1000
       \<and> logspace (log 10 zmin) (log 10 zmax) 1000 = log_uniform_grid zmin zmax 1000
       \<and> z_at_value (\<lambda>z. Inr (f z)) fval zmin zmax
           = interp fval (map f (log_uniform_grid zmin zmax 1000))
               (log_uniform_grid zmin zmax 1000) zmin zmax
       \<and> (\<exists>z. z_at_value (\<lambda>z. Inr (f z)) fval zmin zmax = Inr z
              \<and> z_at_value_spec f fval zmin zmax z \<and> zmin \<le> z \<and> z \<le> zmax)"
proof -
  have pos: "0 < zmin" "0 < zmax" using assms by auto
  define G where "G = log_uniform_grid zmin zmax 1000"
  define fs where "fs = map f G"
  have lenG: "length G = 1000" by (simp add: G_def length_log_uniform_grid)
  have len: "length G = length fs" "2 \<le> length fs" by (simp_all add: fs_def lenG)
  have grid: "logspace (log 10 zmin) (log 10 zmax) 1000 = G"
    unfolding G_def by (rule logspace_is_log_uniform[OF pos]) simp
  have code: "z_at_value (\<lambda>z. Inr (f z)) fval zmin zmax = interp fval fs G zmin zmax"
    unfolding z_at_value_unfold[OF pos] G_def[symmetric] fs_def
    by (simp add: map_res_total rbind_def)
  have Gb: "zmin \<le> G ! i \<and> G ! i \<le> zmax" if "i < 1000" for i
    unfolding G_def using that assms by (intro log_uniform_grid_bounds) simp_all
  have G0: "G ! 0 = zmin" unfolding G_def using pos by (intro log_uniform_grid_first) simp_all
  have G9: "G ! 999 = zmax"
    using log_uniform_grid_last[OF pos, of 1000] by (simp add: G_def)
  have fb: "f zmin \<le> fs ! i \<and> fs ! i \<le> f zmax" if "i < 1000" for i
  proof -
    have "f zmin \<le> f (G ! i)" using Gb[OF that] assms by (intro mono_onD[OF assms(3)]) auto
    moreover have "f (G ! i) \<le> f zmax" using Gb[OF that] assms by (intro mono_onD[OF assms(3)]) auto
    ultimately show ?thesis using that by (simp add: fs_def lenG)
  qed
  have f0: "fs ! 0 = f zmin" by (simp add: fs_def lenG G0)
  have f9: "fs ! 999 = f zmax" by (simp add: fs_def lenG G9)
  have "fs ! 0 \<in> set fs" "fs ! 999 \<in> set fs" using len lenG by simp_all
  then have mem: "f zmin \<in> set fs" "f zmax \<in> set fs" by (simp_all add: f0 f9)
  have all: "f zmin \<le> y \<and> y \<le> f zmax" if "y \<in> set fs" for y
    using that fb len lenG by (auto simp: in_set_conv_nth)
  have Min: "Min (set fs) = f zmin"
    using mem all by (intro Min_eqI) auto
  have Max: "Max (set fs) = f zmax"
    using mem all by (intro Max_eqI) auto
  have spec: "z_at_value_spec f fval zmin zmax z \<longleftrightarrow>
      (if fval < f zmin then z = zmin else if f zmax < fval then z = zmax
       else linear_interpolation fs G fval z)" for z
    unfolding z_at_value_spec_def Let_def unfolding G_def[symmetric]
    unfolding fs_def[symmetric] unfolding Min Max by (rule refl)
  have mono: "f zmin \<le> f zmax" using fb[of 0] by (simp add: f0)
  have inside: "f zmin \<le> fval \<and> fval \<le> f zmax" if "linear_interpolation fs G fval y" for y
  proof -
    from that obtain j where j: "j + 1 < length fs"
      "min (fs ! j) (fs ! (j + 1)) \<le> fval" "fval \<le> max (fs ! j) (fs ! (j + 1))"
      unfolding linear_interpolation_iff by blast
    have "j < 1000" "j + 1 < 1000" using j(1) len lenG by simp_all
    from fb[OF this(1)] fb[OF this(2)] j(2,3) show ?thesis by (auto simp: min_def max_def split: if_splits)
  qed
  have last: "fs ! (length fs - 1) = f zmax" using len lenG by (simp add: f9)
  have "\<exists>z. interp fval fs G zmin zmax = Inr z \<and> z_at_value_spec f fval zmin zmax z"
    using interp_is_linear_interpolation[OF len, of fval zmin zmax]
  proof (elim disjE exE conjE)
    assume "fs ! (length fs - 1) < fval" and e: "interp fval fs G zmin zmax = Inr zmax"
    then have "f zmax < fval" using last by simp
    then have "z_at_value_spec f fval zmin zmax zmax" using mono by (simp add: spec)
    with e show ?thesis by blast
  next
    assume "fval < fs ! 0" and e: "interp fval fs G zmin zmax = Inr zmin"
    then have "z_at_value_spec f fval zmin zmax zmin" by (simp add: spec f0)
    with e show ?thesis by blast
  next
    fix y assume e: "interp fval fs G zmin zmax = Inr y" and l: "linear_interpolation fs G fval y"
    from inside[OF l] l have "z_at_value_spec f fval zmin zmax y" by (simp add: spec)
    with e show ?thesis by blast
  qed
  then obtain z where z: "z_at_value (\<lambda>z. Inr (f z)) fval zmin zmax = Inr z"
    "z_at_value_spec f fval zmin zmax z"
    by (auto simp: code)
  from z_at_value_range[OF z(1)] assms have "zmin \<le> z \<and> z \<le> zmax" by simp
  with z have "\<exists>z. z_at_value (\<lambda>z. Inr (f z)) fval zmin zmax = Inr z
              \<and> z_at_value_spec f fval zmin zmax z \<and> zmin \<le> z \<and> z \<le> zmax" by blast
  moreover have "z_at_value (\<lambda>z. Inr (f z)) fval zmin zmax
           = interp fval (map f (log_uniform_grid zmin zmax 1000))
               (log_uniform_grid zmin zmax 1000) zmin zmax"
    using code by (simp add: fs_def G_def)
  ultimately show ?thesis using grid lenG by (simp add: G_def)
qed

theorem z_at_value_interpolates_on_log_grid_witness:
  "(0::real) < 1 / 10000 \<and> (1::real) / 10000 < 100 \<and> mono_on {1 / 10000..100} (\<lambda>z::real. z)
   \<and> (\<exists>z. z_at_value (\<lambda>z. Inr z) 1 (1 / 10000) 100 = Inr z
          \<and> z_at_value_spec (\<lambda>z. z) 1 (1 / 10000) 100 z \<and> 1 / 10000 \<le> z \<and> z \<le> 100)"
proof -
  have a: "(0::real) < 1 / 10000" "(1::real) / 10000 < 100" by simp_all
  have m: "mono_on {1 / 10000..100} (\<lambda>z::real. z)" by (simp add: mono_on_def)
  from z_at_value_interpolates_on_log_grid[OF a m, of 1]
  have "\<exists>z. z_at_value (\<lambda>z. Inr z) 1 (1 / 10000) 100 = Inr z
          \<and> z_at_value_spec (\<lambda>z. z) 1 (1 / 10000) 100 z \<and> 1 / 10000 \<le> z \<and> z \<le> 100"
    by (elim conjE)
  with a m show ?thesis by (intro conjI)
qed

text \<open>
  The negation \<open>z \<mapsto> - z\<close> is monotonic (decreasing) and takes the value \<open>- 1\<close> at
  \<open>z = 1\<close>, well inside the default grid; \<open>z_at_value\<close> answers \<open>zmax = 100\<close>.
\<close>

theorem z_at_value_decreasing_counterexample:
  "antimono (\<lambda>z::real. - z)
   \<and> z_at_value (\<lambda>z. Inr (- z)) (- 1) (1 / 10000) 100 = Inr 100
   \<and> \<not> z_at_value_spec (\<lambda>z. - z) (- 1) (1 / 10000) 100 100"
proof -
  define G where "G = log_uniform_grid (1 / 10000) 100 1000"
  define fs where "fs = map uminus G"
  have pos: "(0::real) < 1 / 10000" "(0::real) < 100" by simp_all
  have lenG: "length G = 1000" by (simp add: G_def length_log_uniform_grid)
  have len: "length G = length fs" "2 \<le> length fs" by (simp_all add: fs_def lenG)
  have G0: "G ! 0 = 1 / 10000" unfolding G_def using pos by (intro log_uniform_grid_first) simp_all
  have G9: "G ! 999 = 100"
    using log_uniform_grid_last[OF pos, of 1000] by (simp add: G_def)
  have f0: "fs ! 0 = - (1 / 10000)" by (simp add: fs_def lenG G0)
  have f9: "fs ! 999 = - 100" by (simp add: fs_def lenG G9)
  have "z_at_value (\<lambda>z. Inr (- z)) (- 1) (1 / 10000) 100 = interp (- 1) fs G (1 / 10000) 100"
    unfolding z_at_value_unfold[OF pos] G_def[symmetric] fs_def
    by (simp add: map_res_total rbind_def)
  also have "\<dots> = Inr 100"
    using len lenG by (intro interp_above) (simp_all add: f9)
  finally have code: "z_at_value (\<lambda>z. Inr (- z)) (- 1) (1 / 10000) 100 = Inr 100" .
  have "fs ! 999 \<in> set fs" "fs ! 0 \<in> set fs" using len lenG by (simp_all add: nth_mem)
  then have "Min (set fs) \<le> - 100" "- (1 / 10000) \<le> Max (set fs)"
    using Min_le[of "set fs" "fs ! 999"] Max_ge[of "set fs" "fs ! 0"] by (simp_all add: f0 f9)
  then have out: "\<not> - 1 < Min (set fs)" "\<not> Max (set fs) < - 1" by simp_all
  have nolin: "\<not> linear_interpolation fs G (- 1) 100"
  proof
    assume "linear_interpolation fs G (- 1) 100"
    then obtain j where j: "j + 1 < length fs"
      "(100 - G ! j) * (fs ! (j + 1) - fs ! j) = (- 1 - fs ! j) * (G ! (j + 1) - G ! j)"
      unfolding linear_interpolation_iff by blast
    have j': "j < 1000" "j + 1 < 1000" using j(1) len lenG by simp_all
    have "G ! j < G ! (j + 1)"
      unfolding G_def using j' by (intro log_uniform_grid_strict_mono) simp_all
    moreover have "99 * (G ! (j + 1) - G ! j) = 0"
      using j(2) j' by (simp add: fs_def lenG algebra_simps)
    ultimately show False by simp
  qed
  have "\<not> z_at_value_spec (\<lambda>z. - z) (- 1) (1 / 10000) 100 100"
    unfolding z_at_value_spec_def Let_def unfolding G_def[symmetric]
    unfolding fs_def[symmetric] using out nolin by simp
  moreover have "antimono (\<lambda>z::real. - z)" by (simp add: antimono_def)
  ultimately show ?thesis using code by simp
qed

subsection \<open>Frame conversion\<close>

text \<open>
  C4: \<open>detector_to_source_frame\<close> computes \<open>z\<close> as \<open>z_at_value\<close> of the luminosity
  distance (with the given \<open>H0\<close>, \<open>Om0\<close>, \<open>w0\<close>) at the target \<open>dL\<close> over
  \<open>[zmin, zmax]\<close>, and returns \<open>m1z / (1 + z)\<close>, \<open>m2z / (1 + z)\<close> and \<open>z\<close>; the two
  divisions cannot fail, since a redshift that \<open>z_at_value\<close> returns is positive. Where
  \<open>z_at_value\<close> fails, the conversion fails in the same way.
\<close>

theorem detector_to_source_frame_result:
  "detector_to_source_frame im m1z m2z dL H0 Om0 w0 zmin zmax =
     (case z_at_value (\<lambda>z. luminosity_distance im z H0 Om0 w0) dL zmin zmax of
        Inl e \<Rightarrow> Inl e
      | Inr z \<Rightarrow> Inr (m1z / (1 + z), m2z / (1 + z), z))"
proof (cases "z_at_value (\<lambda>z. luminosity_distance im z H0 Om0 w0) dL zmin zmax")
  case (Inl e)
  then show ?thesis by (simp add: detector_to_source_frame_def rbind_def)
next
  case (Inr z)
  from z_at_value_range[OF Inr] have "1 + z \<noteq> 0" by auto
  then show ?thesis using Inr by (simp add: detector_to_source_frame_def rbind_def fdiv_def)
qed

subsection \<open>Luminosity distance in units of the Hubble distance\<close>

lemma div64_Inr: "b \<noteq> 0 \<Longrightarrow> div64 a b = Inr (rnd (a / b))"
  by (simp add: div64_def)

lemma sample_hubble_distance:
  "FlatwCDM_hubble_distance sample_imported sample_cosmology
     = Inr (3296252934905481 / 1099511627776)"
proof -
  have "FlatwCDM_hubble_distance sample_imported sample_cosmology
          = div64 (2575197605394907 / 8589934592) 100"
    by (simp add: FlatwCDM_hubble_distance_def hubble_distance_def sample_imported_def
        sample_cosmology_def FlatLambdaCDM_init_def FlatwCDM_init_def)
  also have "\<dots> = Inr (rnd (2575197605394907 / 8589934592 / 100))"
    by (rule div64_Inr) simp
  also have "rnd (2575197605394907 / 8589934592 / 100) = 3296252934905481 / 1099511627776"
    using rnd_eval_down[of "2575197605394907 / 8589934592 / 100" 41]
    by (simp add: round_half_even_def)
  finally show ?thesis .
qed

lemma sample_luminosity_distance:
  "FlatwCDM_luminosity_distance sample_imported sample_cosmology 2
     = Inr (7416569103537333 / 274877906944)"
proof -
  have s: "self_H0 sample_cosmology = 100"
    by (simp add: sample_cosmology_def FlatLambdaCDM_init_def FlatwCDM_init_def)
  have h: "hubble_distance sample_imported 100 = Inr (3296252934905481 / 1099511627776)"
    using sample_hubble_distance by (simp add: FlatwCDM_hubble_distance_def s)
  have a: "analytic_integral sample_imported 2 (self_Om0 sample_cosmology)
             (self_w0 sample_cosmology) 0 = Inr 3"
    by (simp add: sample_imported_def)
  have "comoving_distance sample_imported 2 100 (self_Om0 sample_cosmology)
          (self_w0 sample_cosmology) = Inr (rnd (3 * (3296252934905481 / 1099511627776)))"
    by (simp only: comoving_distance_def a h rbind_def sum.case)
  also have "rnd (3 * (3296252934905481 / 1099511627776)) = 2472189701179111 / 274877906944"
    using rnd_eval_down[of "3 * (3296252934905481 / 1099511627776)" 39]
    by (simp add: round_half_even_def)
  finally have c: "comoving_distance sample_imported 2 100 (self_Om0 sample_cosmology)
          (self_w0 sample_cosmology) = Inr (2472189701179111 / 274877906944)" .
  have "FlatwCDM_luminosity_distance sample_imported sample_cosmology 2
          = Inr (rnd (rnd (1 + 2) * (2472189701179111 / 274877906944)))"
    by (simp only: FlatwCDM_luminosity_distance_def luminosity_distance_def s c rbind_def sum.case)
  also have "rnd (1 + 2) = 3"
    using rnd_eval_down[of 3 51] by (simp add: round_half_even_def)
  also have "rnd (3 * (2472189701179111 / 274877906944)) = 7416569103537333 / 274877906944"
    using rnd_eval_down[of "3 * (2472189701179111 / 274877906944)" 38]
    by (simp add: round_half_even_def)
  finally show ?thesis .
qed

lemma sample_dLdH:
  "FlatwCDM_dLdH sample_imported sample_cosmology 2
     = Inr (5066549580791809 / 562949953421312)"
proof -
  have "FlatwCDM_dLdH sample_imported sample_cosmology 2
          = div64 (7416569103537333 / 274877906944) (3296252934905481 / 1099511627776)"
    by (simp only: FlatwCDM_dLdH_def sample_luminosity_distance sample_hubble_distance
        rbind_def sum.case)
  also have "\<dots> = Inr (rnd (7416569103537333 / 274877906944
                            / (3296252934905481 / 1099511627776)))"
    by (rule div64_Inr) simp
  also have "rnd (7416569103537333 / 274877906944 / (3296252934905481 / 1099511627776))
               = 5066549580791809 / 562949953421312"
    using rnd_eval_down[of
        "7416569103537333 / 274877906944 / (3296252934905481 / 1099511627776)" 49]
    by (simp add: round_half_even_def)
  finally show ?thesis .
qed

lemma sample_product:
  "rnd (5066549580791809 / 562949953421312 * (3296252934905481 / 1099511627776))
     = 3708284551768667 / 137438953472"
  using rnd_eval_down[of
      "5066549580791809 / 562949953421312 * (3296252934905481 / 1099511627776)" 38]
  by (simp add: round_half_even_def)

text \<open>
  C10 (as amended): for every cosmology object and every \<open>z\<close>, \<open>dLdH(z)\<close> is the float
  quotient of \<open>luminosity_distance(z)\<close> by \<open>hubble_distance\<close>, failing where either of
  them fails or the Hubble distance is zero; multiplied by \<open>hubble_distance\<close> it gives
  \<open>luminosity_distance(z)\<close> back up to the two roundings, a relative error of at most
  \<open>3 / 2^53\<close> as long as the exact quotient and the exact product are in the normal
  range. The claim as stated asks for equality.
\<close>

theorem dLdH_is_rounded_quotient:
  "FlatwCDM_dLdH im self z =
     (case FlatwCDM_luminosity_distance im self z of
        Inl e \<Rightarrow> Inl e
      | Inr dL \<Rightarrow>
          (case FlatwCDM_hubble_distance im self of
             Inl e \<Rightarrow> Inl e
           | Inr dH \<Rightarrow> div64 dL dH))
   \<and> (\<forall>dL dH r.
        FlatwCDM_luminosity_distance im self z = Inr dL
        \<longrightarrow> FlatwCDM_hubble_distance im self = Inr dH
        \<longrightarrow> FlatwCDM_dLdH im self z = Inr r
        \<longrightarrow> normal64 (dL / dH) \<longrightarrow> normal64 (r * dH)
        \<longrightarrow> \<bar>rnd (r * dH) - dL\<bar> \<le> 3 / 2 ^ 53 * \<bar>dL\<bar>)"
proof (intro conjI allI impI)
  show "FlatwCDM_dLdH im self z =
     (case FlatwCDM_luminosity_distance im self z of
        Inl e \<Rightarrow> Inl e
      | Inr dL \<Rightarrow>
          (case FlatwCDM_hubble_distance im self of
             Inl e \<Rightarrow> Inl e
           | Inr dH \<Rightarrow> div64 dL dH))"
    by (simp add: FlatwCDM_dLdH_def rbind_def)
next
  fix dL dH r
  assume l: "FlatwCDM_luminosity_distance im self z = Inr dL"
    and h: "FlatwCDM_hubble_distance im self = Inr dH"
    and q: "FlatwCDM_dLdH im self z = Inr r"
  from q have "div64 dL dH = Inr r" by (simp add: FlatwCDM_dLdH_def l h rbind_def)
  then have nz: "dH \<noteq> 0" and r: "r = rnd (dL / dH)"
    by (auto simp: div64_def split: if_splits)
  have "\<bar>r - dL / dH\<bar> \<le> \<bar>dL / dH\<bar> / 2 ^ 53"
    unfolding r by (rule rnd_rel_error)
  then have "\<bar>r - dL / dH\<bar> * \<bar>dH\<bar> \<le> \<bar>dL / dH\<bar> / 2 ^ 53 * \<bar>dH\<bar>"
    by (intro mult_right_mono) simp_all
  moreover have "\<bar>r - dL / dH\<bar> * \<bar>dH\<bar> = \<bar>r * dH - dL\<bar>"
    using nz by (simp add: abs_mult[symmetric] algebra_simps)
  moreover have "\<bar>dL / dH\<bar> / 2 ^ 53 * \<bar>dH\<bar> = \<bar>dL\<bar> / 2 ^ 53"
    using nz by (simp add: abs_divide)
  ultimately have e1: "\<bar>r * dH - dL\<bar> \<le> \<bar>dL\<bar> / 2 ^ 53" by simp
  then have "\<bar>r * dH\<bar> \<le> \<bar>dL\<bar> + \<bar>dL\<bar> / 2 ^ 53" by linarith
  then have "\<bar>r * dH\<bar> / 2 ^ 53 \<le> (\<bar>dL\<bar> + \<bar>dL\<bar> / 2 ^ 53) / 2 ^ 53"
    by (intro divide_right_mono) simp_all
  moreover have "\<bar>rnd (r * dH) - r * dH\<bar> \<le> \<bar>r * dH\<bar> / 2 ^ 53"
    by (rule rnd_rel_error)
  ultimately have e2: "\<bar>rnd (r * dH) - r * dH\<bar> \<le> (\<bar>dL\<bar> + \<bar>dL\<bar> / 2 ^ 53) / 2 ^ 53"
    by linarith
  have "(\<bar>dL\<bar> + \<bar>dL\<bar> / 2 ^ 53) / 2 ^ 53 \<le> 2 * \<bar>dL\<bar> / 2 ^ 53"
    by (simp add: field_simps)
  with e1 e2 have "\<bar>rnd (r * dH) - dL\<bar> \<le> \<bar>dL\<bar> / 2 ^ 53 + 2 * \<bar>dL\<bar> / 2 ^ 53" by linarith
  then show "\<bar>rnd (r * dH) - dL\<bar> \<le> 3 / 2 ^ 53 * \<bar>dL\<bar>" by simp
qed

theorem dLdH_is_rounded_quotient_witness:
  "FlatwCDM_dLdH sample_imported sample_cosmology 2 = Inr (5066549580791809 / 562949953421312)
   \<and> \<bar>rnd (5066549580791809 / 562949953421312 * (3296252934905481 / 1099511627776))
        - 7416569103537333 / 274877906944\<bar>
       \<le> 3 / 2 ^ 53 * \<bar>7416569103537333 / 274877906944 :: real\<bar>"
proof -
  have n1: "normal64 (7416569103537333 / 274877906944 / (3296252934905481 / 1099511627776))"
    by (simp add: normal64_def)
  have n2: "normal64 (5066549580791809 / 562949953421312 * (3296252934905481 / 1099511627776))"
    by (simp add: normal64_def)
  from dLdH_is_rounded_quotient[of sample_imported sample_cosmology 2]
    sample_luminosity_distance sample_hubble_distance sample_dLdH n1 n2
  show ?thesis by blast
qed

text \<open>
  With the speed of light \<open>299792.458\<close>, \<open>H0 = 100\<close>, an integral of \<open>3.0\<close> and
  \<open>z = 2\<close>, the quotient is \<open>9.000000000000002\<close> and its product with the Hubble
  distance is one unit in the last place above the luminosity distance.
\<close>

theorem dLdH_times_hubble_distance_counterexample:
  "rbind (FlatwCDM_dLdH sample_imported sample_cosmology 2) (\<lambda>r.
     rbind (FlatwCDM_hubble_distance sample_imported sample_cosmology) (\<lambda>dH.
       Inr (rnd (r * dH))))
   \<noteq> FlatwCDM_luminosity_distance sample_imported sample_cosmology 2"
proof -
  have "rbind (FlatwCDM_dLdH sample_imported sample_cosmology 2) (\<lambda>r.
     rbind (FlatwCDM_hubble_distance sample_imported sample_cosmology) (\<lambda>dH.
       Inr (rnd (r * dH))))
    = Inr (3708284551768667 / 137438953472)"
    by (simp only: sample_dLdH sample_hubble_distance sample_product rbind_def sum.case)
  then show ?thesis by (simp add: sample_luminosity_distance)
qed

end
